theory Spec2Isabelle
  imports Main
begin

section \<open>JavaScript strings and the destination path\<close>

text \<open>
  A JavaScript string is a sequence of UTF-16 code units; a regular expression without the
  \<open>u\<close> flag matches code unit by code unit. Code units are natural numbers here.
\<close>

type_synonym jsstring = "nat list"

definition ascii :: "string \<Rightarrow> jsstring" where
  "ascii s = map of_char s"

text \<open>The character class \<open>[a-zA-Z0-9]\<close> of the regular expression in \<open>installGame\<close>.\<close>

definition isAlnum :: "nat \<Rightarrow> bool" where
  "isAlnum c = ((97 \<le> c \<and> c \<le> 122) \<or> (65 \<le> c \<and> c \<le> 90) \<or> (48 \<le> c \<and> c \<le> 57))"

text \<open>\<open>title.replace(/[^a-zA-Z0-9]/g, "_")\<close>: every code unit outside the class becomes \<open>_\<close> (95).\<close>

definition replaceNonAlnum :: "jsstring \<Rightarrow> jsstring" where
  "replaceNonAlnum t = map (\<lambda>c. if isAlnum c then c else 95) t"

text \<open>
  \<open>String.prototype.trim\<close> removes the WhiteSpace and LineTerminator code points of
  ECMAScript from both ends.
\<close>

definition isWhiteSpace :: "nat \<Rightarrow> bool" where
  "isWhiteSpace c = (c \<in> {9, 10, 11, 12, 13, 32, 160, 5760, 8232, 8233, 8239, 8287, 12288, 65279}
                      \<or> (8192 \<le> c \<and> c \<le> 8202))"

definition trim :: "jsstring \<Rightarrow> jsstring" where
  "trim t = rev (dropWhile isWhiteSpace (rev (dropWhile isWhiteSpace t)))"

text \<open>The file name part of \<open>dest\<close>: the template literal after the directory and the slash.\<close>

definition destFileName :: "jsstring \<Rightarrow> jsstring" where
  "destFileName t = trim (replaceNonAlnum t) @ ascii ''.apk''"

text \<open>
  The derivation in the words of the specification: strip every character outside
  \<open>[A-Za-z0-9]\<close>, trim, append the extension.
\<close>

definition spec_destFileName :: "jsstring \<Rightarrow> jsstring" where
  "spec_destFileName t = trim (filter isAlnum t) @ ascii ''.apk''"

section \<open>Catalog items, platform and external outcomes\<close>

record game =
  gid :: nat
  title :: jsstring
  apkUrl :: jsstring
  packageName :: jsstring

text \<open>\<open>Platform.OS\<close>, \<open>Platform.Version\<close> and \<open>RNFS.DownloadDirectoryPath\<close>.\<close>

record env =
  platformOS :: string
  platformVersion :: int
  downloadDirectoryPath :: jsstring

definition dest :: "env \<Rightarrow> game \<Rightarrow> jsstring" where
  "dest e g = downloadDirectoryPath e @ ascii ''/'' @ destFileName (title g)"

text \<open>A thrown value or a rejected promise; what is thrown is never inspected by the code.\<close>

datatype exn = Exn

text \<open>
  How the awaited external calls settle: \<open>PermissionsAndroid.request\<close> resolves with a
  result string or rejects; \<open>RNFS.downloadFile(...).promise\<close> resolves with a status code
  or rejects; \<open>actionViewIntent\<close> and \<open>startAppByPackageName\<close> return or raise;
  \<open>isAppInstalled\<close> resolves with a truth value or raises.
\<close>

datatype perm_outcome = PermResolved string | PermRejected
datatype dl_outcome = DlResolved int | DlRejected
datatype call_outcome = Returned | Raised
datatype query_outcome = QueryResolved bool | QueryRaised

definition GRANTED :: string where
  "GRANTED = ''granted''"

section \<open>The permission gate\<close>

text \<open>
  \<open>requestPermission\<close> up to its first suspension: it either returns at once or calls
  \<open>PermissionsAndroid.request\<close> (the system prompt) and waits.
\<close>

datatype perm_start = PermReturns bool | PermPrompts

definition requestPermission_start :: "env \<Rightarrow> perm_start" where
  "requestPermission_start e =
     (if platformOS e \<noteq> ''android'' then PermReturns True
      else if platformVersion e < 29 then PermPrompts
      else PermReturns True)"

text \<open>The whole function, given how the prompt settles when one is presented.\<close>

definition requestPermission :: "env \<Rightarrow> perm_outcome \<Rightarrow> exn + bool" where
  "requestPermission e out =
     (case requestPermission_start e of
        PermReturns b \<Rightarrow> Inr b
      | PermPrompts \<Rightarrow>
          (case out of
             PermRejected \<Rightarrow> Inl Exn
           | PermResolved granted \<Rightarrow> Inr (granted = GRANTED)))"

section \<open>Observable effects\<close>

datatype alert =
    AlertPermissionDenied
  | AlertDownloading jsstring
  | AlertInstalled jsstring
  | AlertDownloadFailed
  | AlertInstallError

text \<open>
  The calls the code makes, in the order it makes them. \<open>ActionViewIntent d\<close> is the
  handoff of file \<open>d\<close>; its content type and provider authority are constants of the
  code. The alerts are named after their titles and texts; the two that mention the
  item carry its title. The timers carry their delay in milliseconds.
\<close>

datatype effect =
    PermissionRequest
  | SetDownloadingGame "nat option"
  | Alert alert
  | DownloadFile jsstring jsstring
  | ActionViewIntent jsstring
  | SetInterval nat
  | SetTimeout nat
  | IsAppInstalled jsstring
  | ClearInterval
  | StartApp jsstring
  | ConsoleLog
  | ConsoleError

section \<open>One invocation of installGame\<close>

text \<open>
  The phase is the suspension point of the \<open>installGame\<close> coroutine. After the handoff has
  returned and the two timers are set, \<open>installGame\<close> itself has returned; what remains is
  the interval timer, the deadline timer and the tick callbacks still awaiting a reply.
\<close>

datatype phase = AwaitingPermission | Downloading | HandingOffToInstaller | Finished

record flow =
  fgame :: game
  phase :: phase
  intervalActive :: bool
  deadlinePending :: bool
  pendingQueries :: nat
  pendingLaunches :: nat
  log :: "effect list"

definition newFlow :: "env \<Rightarrow> game \<Rightarrow> flow" where
  "newFlow e g =
     \<lparr>fgame = g, phase = AwaitingPermission, intervalActive = False, deadlinePending = False,
      pendingQueries = 0, pendingLaunches = 0,
      log = (case requestPermission_start e of PermPrompts \<Rightarrow> [PermissionRequest] | PermReturns b \<Rightarrow> [])\<rparr>"

text \<open>\<open>try { body } catch (e) { handler }\<close>.\<close>

definition tryCatch :: "exn + 'a \<Rightarrow> (exn \<Rightarrow> 'a) \<Rightarrow> exn + 'a" where
  "tryCatch body handler = (case body of Inl e \<Rightarrow> Inr (handler e) | Inr r \<Rightarrow> Inr r)"

text \<open>The \<open>catch\<close> block of \<open>installGame\<close>.\<close>

definition catchInstall :: "flow \<Rightarrow> effect list \<times> flow" where
  "catchInstall f =
     ([ConsoleError, SetDownloadingGame None, Alert AlertInstallError], f\<lparr>phase := Finished\<rparr>)"

text \<open>The \<open>try\<close> body from the resumption after \<open>await requestPermission()\<close> to the next await.\<close>

definition afterPermission :: "env \<Rightarrow> perm_outcome \<Rightarrow> flow \<Rightarrow> exn + effect list \<times> flow" where
  "afterPermission e out f =
     (case requestPermission e out of
        Inl x \<Rightarrow> Inl x
      | Inr ok \<Rightarrow>
          if \<not> ok then Inr ([Alert AlertPermissionDenied], f\<lparr>phase := Finished\<rparr>)
          else Inr ([SetDownloadingGame (Some (gid (fgame f))),
                     Alert (AlertDownloading (title (fgame f))),
                     DownloadFile (apkUrl (fgame f)) (dest e (fgame f))],
                    f\<lparr>phase := Downloading\<rparr>))"

text \<open>
  From the resumption after the download to the next await. The \<open>require\<close> of the intent
  launcher is a module lookup, resolved when the bundle is built; it is not an effect.
\<close>

definition afterDownload :: "env \<Rightarrow> dl_outcome \<Rightarrow> flow \<Rightarrow> exn + effect list \<times> flow" where
  "afterDownload e r f =
     (case r of
        DlRejected \<Rightarrow> Inl Exn
      | DlResolved statusCode \<Rightarrow>
          if statusCode = 200
          then Inr ([ActionViewIntent (dest e (fgame f))], f\<lparr>phase := HandingOffToInstaller\<rparr>)
          else Inr ([Alert AlertDownloadFailed, SetDownloadingGame None], f\<lparr>phase := Finished\<rparr>))"

text \<open>From the resumption after the handoff to the end of \<open>installGame\<close>.\<close>

definition afterHandoff :: "call_outcome \<Rightarrow> flow \<Rightarrow> exn + effect list \<times> flow" where
  "afterHandoff r f =
     (case r of
        Raised \<Rightarrow> Inl Exn
      | Returned \<Rightarrow>
          Inr ([SetDownloadingGame None, SetInterval 2000, SetTimeout 20000],
               f\<lparr>phase := Finished, intervalActive := True, deadlinePending := True\<rparr>))"

text \<open>The interval callback: its start, and its resumptions after the two awaits.\<close>

definition tickStart :: "flow \<Rightarrow> effect list \<times> flow" where
  "tickStart f =
     ([IsAppInstalled (packageName (fgame f))], f\<lparr>pendingQueries := Suc (pendingQueries f)\<rparr>)"

definition tickAfterQuery :: "query_outcome \<Rightarrow> flow \<Rightarrow> exn + effect list \<times> flow" where
  "tickAfterQuery r f =
     tryCatch
       (case r of
          QueryRaised \<Rightarrow> Inl Exn
        | QueryResolved isInstalled \<Rightarrow>
            if isInstalled
            then Inr ([ClearInterval, Alert (AlertInstalled (title (fgame f))),
                       StartApp (packageName (fgame f))],
                      f\<lparr>intervalActive := False, pendingQueries := pendingQueries f - 1,
                        pendingLaunches := Suc (pendingLaunches f)\<rparr>)
            else Inr ([], f\<lparr>pendingQueries := pendingQueries f - 1\<rparr>))
       (\<lambda>x. ([ConsoleLog], f\<lparr>pendingQueries := pendingQueries f - 1\<rparr>))"

definition tickAfterLaunch :: "call_outcome \<Rightarrow> flow \<Rightarrow> exn + effect list \<times> flow" where
  "tickAfterLaunch r f =
     tryCatch
       (case r of
          Raised \<Rightarrow> Inl Exn
        | Returned \<Rightarrow> Inr ([], f\<lparr>pendingLaunches := pendingLaunches f - 1\<rparr>))
       (\<lambda>x. ([ConsoleLog], f\<lparr>pendingLaunches := pendingLaunches f - 1\<rparr>))"

text \<open>The deadline callback \<open>() => clearInterval(checkInterval)\<close>.\<close>

definition deadlineFires :: "flow \<Rightarrow> effect list \<times> flow" where
  "deadlineFires f = ([ClearInterval], f\<lparr>intervalActive := False, deadlinePending := False\<rparr>)"

text \<open>
  What the environment can do to one invocation: settle the call it awaits, or fire one
  of its timers. An event that is not possible in the current state (a reply nobody
  waits for, a timer that is cleared or has fired) changes nothing.
  \<open>PermResolve out\<close> resumes \<open>installGame\<close> after \<open>await requestPermission()\<close>; \<open>out\<close> is
  how the prompt settled and is not looked at when no prompt was presented.
  The interval callback is asynchronous, so several ticks can be in flight at once:
  \<open>pendingQueries\<close> and \<open>pendingLaunches\<close> count the callbacks waiting at each await.
\<close>

datatype fevent =
    PermResolve perm_outcome
  | DownloadResolve dl_outcome
  | HandoffResolve call_outcome
  | TickFire
  | QueryResolve query_outcome
  | LaunchResolve call_outcome
  | DeadlineFire

definition react :: "env \<Rightarrow> fevent \<Rightarrow> flow \<Rightarrow> exn + effect list \<times> flow" where
  "react e ev f =
     (case ev of
        PermResolve out \<Rightarrow>
          if phase f = AwaitingPermission
          then tryCatch (afterPermission e out f) (\<lambda>x. catchInstall f) else Inr ([], f)
      | DownloadResolve r \<Rightarrow>
          if phase f = Downloading
          then tryCatch (afterDownload e r f) (\<lambda>x. catchInstall f) else Inr ([], f)
      | HandoffResolve r \<Rightarrow>
          if phase f = HandingOffToInstaller
          then tryCatch (afterHandoff r f) (\<lambda>x. catchInstall f) else Inr ([], f)
      | TickFire \<Rightarrow> if intervalActive f then Inr (tickStart f) else Inr ([], f)
      | QueryResolve r \<Rightarrow> if 0 < pendingQueries f then tickAfterQuery r f else Inr ([], f)
      | LaunchResolve r \<Rightarrow> if 0 < pendingLaunches f then tickAfterLaunch r f else Inr ([], f)
      | DeadlineFire \<Rightarrow> if deadlinePending f then Inr (deadlineFires f) else Inr ([], f))"

text \<open>The effects of a reaction are appended to the log of the invocation.\<close>

definition flowStep :: "env \<Rightarrow> fevent \<Rightarrow> flow \<Rightarrow> flow" where
  "flowStep e ev f =
     (case react e ev f of
        Inl x \<Rightarrow> f
      | Inr (es, f') \<Rightarrow> f'\<lparr>log := log f @ es\<rparr>)"

definition emitted :: "env \<Rightarrow> fevent \<Rightarrow> flow \<Rightarrow> effect list" where
  "emitted e ev f = (case react e ev f of Inl x \<Rightarrow> [] | Inr (es, f') \<Rightarrow> es)"

fun flowRun :: "env \<Rightarrow> fevent list \<Rightarrow> flow \<Rightarrow> flow" where
  "flowRun e [] f = f"
| "flowRun e (ev # evs) f = flowRun e evs (flowStep e ev f)"

section \<open>The component state and the install button\<close>

record state =
  downloadingGame :: "nat option"
  flows :: "flow list"

definition init :: state where
  "init = \<lparr>downloadingGame = None, flows = []\<rparr>"

text \<open>The calls of \<open>setDownloadingGame\<close> among the effects, applied in order.\<close>

fun applySets :: "effect list \<Rightarrow> nat option \<Rightarrow> nat option" where
  "applySets [] d = d"
| "applySets (SetDownloadingGame v # es) d = applySets es v"
| "applySets (x # es) d = applySets es d"

text \<open>
  \<open>Press g\<close> is a press on the button of item \<open>g\<close>; the button is disabled when
  \<open>downloadingGame === item.id\<close>. \<open>Flow w ev\<close> is the event \<open>ev\<close> for invocation \<open>w\<close>.
\<close>

datatype event = Press game | Flow nat fevent

definition step :: "env \<Rightarrow> event \<Rightarrow> state \<Rightarrow> state" where
  "step e ev s =
     (case ev of
        Press g \<Rightarrow>
          if downloadingGame s = Some (gid g) then s
          else s\<lparr>flows := flows s @ [newFlow e g]\<rparr>
      | Flow w fev \<Rightarrow>
          if w < length (flows s)
          then s\<lparr>downloadingGame := applySets (emitted e fev (flows s ! w)) (downloadingGame s),
                 flows := (flows s)[w := flowStep e fev (flows s ! w)]\<rparr>
          else s)"

fun run :: "env \<Rightarrow> event list \<Rightarrow> state \<Rightarrow> state" where
  "run e [] s = s"
| "run e (ev # evs) s = run e evs (step e ev s)"

text \<open>
  An invocation is past its terminal state once \<open>installGame\<close> has returned and the
  repeating check is no longer alive.
\<close>

definition nonTerminal :: "flow \<Rightarrow> bool" where
  "nonTerminal f = (phase f \<noteq> Finished \<or> intervalActive f)"

definition activeFlows :: "nat \<Rightarrow> state \<Rightarrow> flow list" where
  "activeFlows i s = filter (\<lambda>f. gid (fgame f) = i \<and> nonTerminal f) (flows s)"

section \<open>Concrete catalog items and platforms\<close>

definition spaceJump :: game where
  "spaceJump = \<lparr>gid = 1, title = ascii ''Space Jump!'', apkUrl = ascii ''https://x/sj.apk'',
     packageName = ascii ''com.sj''\<rparr>"

definition oldAndroid :: env where
  "oldAndroid = \<lparr>platformOS = ''android'', platformVersion = 28,
     downloadDirectoryPath = ascii ''/dl''\<rparr>"

definition newAndroid :: env where
  "newAndroid = \<lparr>platformOS = ''android'', platformVersion = 33,
     downloadDirectoryPath = ascii ''/dl''\<rparr>"

definition mathQuest :: game where
  "mathQuest = \<lparr>gid = 2, title = ascii ''Math Quest'', apkUrl = ascii ''https://x/mq.apk'',
     packageName = ascii ''com.mq''\<rparr>"

text \<open>An invocation on a recent Android whose handoff has returned: it is polling.\<close>

definition pollingFlow :: flow where
  "pollingFlow = flowRun newAndroid
     [PermResolve (PermResolved ''granted''), DownloadResolve (DlResolved 200), HandoffResolve Returned]
     (newFlow newAndroid spaceJump)"

section \<open>Invariants of an invocation\<close>

definition quiet :: "flow \<Rightarrow> bool" where
  "quiet f = (\<not> intervalActive f \<and> \<not> deadlinePending f \<and> pendingQueries f = 0 \<and> pendingLaunches f = 0)"

definition promptLog :: "env \<Rightarrow> effect list" where
  "promptLog e = (case requestPermission_start e of PermPrompts \<Rightarrow> [PermissionRequest] | PermReturns b \<Rightarrow> [])"

definition startLog :: "env \<Rightarrow> game \<Rightarrow> effect list" where
  "startLog e g = [SetDownloadingGame (Some (gid g)), Alert (AlertDownloading (title g)),
                   DownloadFile (apkUrl g) (dest e g)]"

definition startInv :: "env \<Rightarrow> game \<Rightarrow> flow \<Rightarrow> bool" where
  "startInv e g f =
     (fgame f = g \<and>
      (case phase f of
         AwaitingPermission \<Rightarrow> quiet f \<and> log f = promptLog e
       | Downloading \<Rightarrow> quiet f \<and> log f = promptLog e @ startLog e g
       | HandingOffToInstaller \<Rightarrow>
           quiet f \<and> log f = promptLog e @ startLog e g @ [ActionViewIntent (dest e g)]
       | Finished \<Rightarrow> True))"

text \<open>
  \<open>precededBy a b xs\<close>: every occurrence of \<open>b\<close> in \<open>xs\<close> comes directly after an \<open>a\<close>.
  The scan carries whether the element just passed was \<open>a\<close>.
\<close>

fun scanPrev :: "'a \<Rightarrow> 'a \<Rightarrow> bool \<Rightarrow> 'a list \<Rightarrow> bool" where
  "scanPrev a b p [] = True"
| "scanPrev a b p (x # xs) = ((x = b \<longrightarrow> p) \<and> scanPrev a b (x = a) xs)"

definition precededBy :: "'a \<Rightarrow> 'a \<Rightarrow> 'a list \<Rightarrow> bool" where
  "precededBy a b xs = scanPrev a b False xs"

definition isCheck :: "effect \<Rightarrow> bool" where
  "isCheck x = (case x of IsAppInstalled p \<Rightarrow> True | _ \<Rightarrow> False)"

definition isAlert :: "effect \<Rightarrow> bool" where
  "isAlert x = (case x of Alert a \<Rightarrow> True | _ \<Rightarrow> False)"

definition isSet :: "effect \<Rightarrow> bool" where
  "isSet x = (case x of SetDownloadingGame v \<Rightarrow> True | _ \<Rightarrow> False)"

definition pollInv :: "game \<Rightarrow> flow \<Rightarrow> bool" where
  "pollInv g f =
     (count_list (log f) ClearInterval =
        count_list (log f) (Alert (AlertInstalled (title g)))
        + (if SetTimeout 20000 \<in> set (log f) \<and> \<not> deadlinePending f then 1 else 0)
      \<and> (intervalActive f \<longrightarrow> deadlinePending f)
      \<and> (deadlinePending f \<longrightarrow> SetTimeout 20000 \<in> set (log f)))"

text \<open>
  What holds during a polling session in which no check has reported the package: no
  launch is in flight, the interval lives exactly as long as the deadline timer,
  \<open>clearInterval\<close> has been called once if the deadline has fired and not at all
  otherwise, and the alerts are still those raised before polling began.
\<close>

definition timedInv :: "effect list \<Rightarrow> flow \<Rightarrow> bool" where
  "timedInv A f =
     (phase f = Finished \<and> pendingLaunches f = 0 \<and> intervalActive f = deadlinePending f
      \<and> count_list (log f) ClearInterval = (if deadlinePending f then 0 else 1)
      \<and> filter isAlert (log f) = A)"

text \<open>
  Once \<open>installGame\<close> has returned, the writes of the run to the busy indicator end with
  the clearing one, or there are none.
\<close>

definition netClear :: "flow \<Rightarrow> bool" where
  "netClear f = (phase f = Finished \<longrightarrow>
                   (\<forall>d. applySets (log f) d = None) \<or> (\<forall>x\<in>set (log f). \<not> isSet x))"

text \<open>
  An invocation is in flight between the grant of the permission gate and the end of its
  handoff; \<open>busyRun i s\<close> says that some invocation for item \<open>i\<close> is in flight in \<open>s\<close>.
\<close>

definition inFlight :: "flow \<Rightarrow> bool" where
  "inFlight f = (phase f = Downloading \<or> phase f = HandingOffToInstaller)"

definition busyRun :: "nat \<Rightarrow> state \<Rightarrow> bool" where
  "busyRun i s = list_ex (\<lambda>f. gid (fgame f) = i \<and> inFlight f) (flows s)"

section \<open>Basic facts about reactions and runs\<close>

text \<open>
  Every reaction of an invocation returns normally: each resumption of \<open>installGame\<close> and
  of the interval callback sits inside a \<open>try\<close> block.
\<close>

lemmas react_defs = react_def tryCatch_def catchInstall_def afterPermission_def
  afterDownload_def afterHandoff_def tickStart_def tickAfterQuery_def tickAfterLaunch_def
  deadlineFires_def

lemma react_total: "\<exists>es f'. react e ev f = Inr (es, f')"
  by (cases ev) (auto simp: react_defs split: sum.splits call_outcome.splits dl_outcome.splits query_outcome.splits)

lemma log_flowStep: "log (flowStep e ev f) = log f @ emitted e ev f"
  using react_total [of e ev f] by (auto simp: emitted_def flowStep_def)

lemma fgame_flowStep: "fgame (flowStep e ev f) = fgame f"
  by (cases ev) (auto simp: flowStep_def react_defs split: sum.splits call_outcome.splits dl_outcome.splits query_outcome.splits)

lemma flowRun_append: "flowRun e (xs @ ys) f = flowRun e ys (flowRun e xs f)"
  by (induction xs arbitrary: f) auto

lemma flowRun_invariant:
  assumes "P f" and "\<And>f ev. P f \<Longrightarrow> P (flowStep e ev f)"
  shows "P (flowRun e evs f)"
  using assms(1) by (induction evs arbitrary: f) (auto intro: assms(2))

lemma startInv_new: "startInv e g (newFlow e g)"
  by (simp add: startInv_def newFlow_def quiet_def promptLog_def)

lemma startInv_step: "startInv e g f \<Longrightarrow> startInv e g (flowStep e ev f)"
  by (cases ev)
     (auto simp: startInv_def flowStep_def react_defs quiet_def startLog_def
           split: sum.splits call_outcome.splits dl_outcome.splits query_outcome.splits phase.splits)

lemma startInv_run: "startInv e g (flowRun e evs (newFlow e g))"
  by (rule flowRun_invariant [where P = "startInv e g"]) (auto intro: startInv_new startInv_step)


lemma scanPrev_append:
  "scanPrev a b p (xs @ ys) =
     (scanPrev a b p xs \<and> scanPrev a b (if xs = [] then p else last xs = a) ys)"
  by (induction xs arbitrary: p) auto

lemma scanPrev_absent: "b \<notin> set xs \<Longrightarrow> scanPrev a b p xs"
  by (induction xs arbitrary: p) auto

lemma applySets_append: "applySets (xs @ ys) d = applySets ys (applySets xs d)"
  by (induction xs d rule: applySets.induct) auto

lemma applySets_noset: "\<forall>x\<in>set xs. \<not> isSet x \<Longrightarrow> applySets xs d = d"
  by (induction xs d rule: applySets.induct) (auto simp: isSet_def)

lemma pollInv_step:
  assumes "startInv e g f" "pollInv g f"
  shows "pollInv g (flowStep e ev f)"
  using assms
  by (cases ev)
     (auto simp: startInv_def pollInv_def flowStep_def react_defs quiet_def startLog_def promptLog_def
           split: sum.splits call_outcome.splits dl_outcome.splits query_outcome.splits phase.splits
                  perm_start.splits if_splits)

lemma inert_step: "phase f = Finished \<Longrightarrow> quiet f \<Longrightarrow> flowStep e ev f = f"
  by (cases ev) (auto simp: flowStep_def react_defs quiet_def)

lemma inert_run: "phase f = Finished \<Longrightarrow> quiet f \<Longrightarrow> flowRun e evs f = f"
  by (induction evs) (auto simp: inert_step)

lemma reach_AwaitingPermission:
  "phase (flowRun e evs (newFlow e g)) = AwaitingPermission \<Longrightarrow>
     quiet (flowRun e evs (newFlow e g)) \<and> log (flowRun e evs (newFlow e g)) = promptLog e"
  using startInv_run [of e g evs] by (simp add: startInv_def)

lemma reach_Downloading:
  "phase (flowRun e evs (newFlow e g)) = Downloading \<Longrightarrow>
     quiet (flowRun e evs (newFlow e g)) \<and> fgame (flowRun e evs (newFlow e g)) = g
     \<and> log (flowRun e evs (newFlow e g)) = promptLog e @ startLog e g"
  using startInv_run [of e g evs] by (simp add: startInv_def)

lemma reach_HandingOff:
  "phase (flowRun e evs (newFlow e g)) = HandingOffToInstaller \<Longrightarrow>
     quiet (flowRun e evs (newFlow e g)) \<and> fgame (flowRun e evs (newFlow e g)) = g
     \<and> log (flowRun e evs (newFlow e g)) = promptLog e @ startLog e g @ [ActionViewIntent (dest e g)]"
  using startInv_run [of e g evs] by (simp add: startInv_def)

lemma denied_step:
  assumes "phase f = AwaitingPermission" "requestPermission e out = Inr False"
  shows "flowStep e (PermResolve out) f = f\<lparr>phase := Finished, log := log f @ [Alert AlertPermissionDenied]\<rparr>"
  using assms by (simp add: flowStep_def react_defs)

lemma denied_prompts: "requestPermission e out = Inr False \<Longrightarrow> promptLog e = [PermissionRequest]"
  by (auto simp: requestPermission_def requestPermission_start_def promptLog_def
      split: perm_start.splits if_splits)

lemma phase_late_step:
  "phase f = HandingOffToInstaller \<or> phase f = Finished \<Longrightarrow>
   phase (flowStep e ev f) = HandingOffToInstaller \<or> phase (flowStep e ev f) = Finished"
  by (cases ev)
     (auto simp: flowStep_def react_defs split: call_outcome.splits query_outcome.splits)

lemma installError_source:
  "phase f = HandingOffToInstaller \<or> phase f = Finished \<Longrightarrow>
   Alert AlertInstallError \<in> set (emitted e ev f) \<Longrightarrow> ev = HandoffResolve Raised"
  by (cases ev)
     (auto simp: emitted_def react_defs split: call_outcome.splits query_outcome.splits if_splits)

lemma downloadFailed_source:
  "phase f = HandingOffToInstaller \<or> phase f = Finished \<Longrightarrow>
   Alert AlertDownloadFailed \<notin> set (emitted e ev f)"
  by (cases ev)
     (auto simp: emitted_def react_defs split: call_outcome.splits query_outcome.splits if_splits)

lemma installError_only_by_handoff:
  "phase f = HandingOffToInstaller \<or> phase f = Finished \<Longrightarrow>
   Alert AlertInstallError \<in> set (log (flowRun e evs f)) \<Longrightarrow>
   Alert AlertInstallError \<in> set (log f) \<or> HandoffResolve Raised \<in> set evs"
proof (induction evs arbitrary: f)
  case Nil
  then show ?case by simp
next
  case (Cons ev evs)
  have "Alert AlertInstallError \<in> set (log (flowStep e ev f)) \<or> HandoffResolve Raised \<in> set evs"
    using Cons.IH [OF phase_late_step [OF Cons.prems(1)]] Cons.prems(2) by simp
  then show ?case
    using installError_source [OF Cons.prems(1), of e ev] by (auto simp: log_flowStep)
qed

lemma downloadFailed_not_late:
  "phase f = HandingOffToInstaller \<or> phase f = Finished \<Longrightarrow>
   Alert AlertDownloadFailed \<in> set (log (flowRun e evs f)) \<Longrightarrow>
   Alert AlertDownloadFailed \<in> set (log f)"
proof (induction evs arbitrary: f)
  case Nil
  then show ?case by simp
next
  case (Cons ev evs)
  have "Alert AlertDownloadFailed \<in> set (log (flowStep e ev f))"
    using Cons.IH [OF phase_late_step [OF Cons.prems(1)]] Cons.prems(2) by simp
  then show ?case
    using downloadFailed_source [OF Cons.prems(1), of e ev] by (auto simp: log_flowStep)
qed

lemma log_grows: "set (log f) \<subseteq> set (log (flowRun e evs f))"
proof (induction evs arbitrary: f)
  case Nil
  then show ?case by simp
next
  case (Cons ev evs)
  have "set (log f) \<subseteq> set (log (flowStep e ev f))" by (simp add: log_flowStep)
  with Cons.IH [of "flowStep e ev f"] show ?case by auto
qed

lemma download_ok_step:
  "phase f = Downloading \<Longrightarrow>
   flowStep e (DownloadResolve (DlResolved 200)) f
     = f\<lparr>phase := HandingOffToInstaller, log := log f @ [ActionViewIntent (dest e (fgame f))]\<rparr>"
  by (simp add: flowStep_def react_defs)

lemma download_bad_step:
  "phase f = Downloading \<Longrightarrow> c \<noteq> 200 \<Longrightarrow>
   flowStep e (DownloadResolve (DlResolved c)) f
     = f\<lparr>phase := Finished, log := log f @ [Alert AlertDownloadFailed, SetDownloadingGame None]\<rparr>"
  by (simp add: flowStep_def react_defs)

lemma startLogs_plain:
  "Alert AlertInstallError \<notin> set (promptLog e @ startLog e g)"
  "Alert AlertDownloadFailed \<notin> set (promptLog e @ startLog e g)"
  "ActionViewIntent d \<notin> set (promptLog e @ startLog e g)"
  by (auto simp: promptLog_def startLog_def split: perm_start.splits)

lemma pollingFlow_eval:
  "pollingFlow = \<lparr>fgame = spaceJump, phase = Finished, intervalActive = True, deadlinePending = True,
      pendingQueries = 0, pendingLaunches = 0,
      log = [SetDownloadingGame (Some 1), Alert (AlertDownloading (title spaceJump)),
             DownloadFile (apkUrl spaceJump) (dest newAndroid spaceJump),
             ActionViewIntent (dest newAndroid spaceJump),
             SetDownloadingGame None, SetInterval 2000, SetTimeout 20000]\<rparr>"
  by (simp add: pollingFlow_def flowStep_def react_defs newFlow_def requestPermission_def
      requestPermission_start_def newAndroid_def spaceJump_def)

lemma query_raised_step:
  "0 < pendingQueries f \<Longrightarrow>
   flowStep e (QueryResolve QueryRaised) f
     = f\<lparr>pendingQueries := pendingQueries f - 1, log := log f @ [ConsoleLog]\<rparr>"
  by (simp add: flowStep_def react_defs)

lemma launch_raised_step:
  "0 < pendingLaunches f \<Longrightarrow>
   flowStep e (LaunchResolve Raised) f
     = f\<lparr>pendingLaunches := pendingLaunches f - 1, log := log f @ [ConsoleLog]\<rparr>"
  by (simp add: flowStep_def react_defs)

lemma startApp_emitted:
  "StartApp p \<in> set (emitted e ev f) \<Longrightarrow>
   emitted e ev f = [ClearInterval, Alert (AlertInstalled (title (fgame f))),
                     StartApp (packageName (fgame f))]"
  by (cases ev)
     (auto simp: emitted_def react_defs split: sum.splits call_outcome.splits dl_outcome.splits
        query_outcome.splits if_splits)

lemma startApp_target:
  "StartApp p \<in> set (emitted e ev f) \<Longrightarrow> p = packageName (fgame f)"
  by (cases ev)
     (auto simp: emitted_def react_defs split: sum.splits call_outcome.splits dl_outcome.splits
        query_outcome.splits if_splits)

lemma installed_emitted:
  "Alert (AlertInstalled t) \<in> set (emitted e ev f) \<Longrightarrow>
   emitted e ev f = [ClearInterval, Alert (AlertInstalled (title (fgame f))),
                     StartApp (packageName (fgame f))]"
  by (cases ev)
     (auto simp: emitted_def react_defs split: sum.splits call_outcome.splits dl_outcome.splits
        query_outcome.splits if_splits)

lemma launch_order_step:
  assumes "precededBy (Alert (AlertInstalled (title (fgame f)))) (StartApp (packageName (fgame f))) (log f)"
  shows "precededBy (Alert (AlertInstalled (title (fgame f)))) (StartApp (packageName (fgame f)))
           (log (flowStep e ev f))"
proof (cases "StartApp (packageName (fgame f)) \<in> set (emitted e ev f)")
  case True
  show ?thesis
    using assms by (simp add: precededBy_def log_flowStep scanPrev_append startApp_emitted [OF True])
next
  case False
  show ?thesis
    using assms scanPrev_absent [OF False]
    by (simp add: precededBy_def log_flowStep scanPrev_append)
qed

lemma launch_order_run:
  "precededBy (Alert (AlertInstalled (title g))) (StartApp (packageName g))
     (log (flowRun e evs (newFlow e g)))"
proof -
  let ?P = "\<lambda>f::flow. fgame f = g \<and> precededBy (Alert (AlertInstalled (title g))) (StartApp (packageName g)) (log f)"
  have "?P (flowRun e evs (newFlow e g))"
  proof (rule flowRun_invariant [where P = ?P])
    show "?P (newFlow e g)"
      by (simp add: newFlow_def precededBy_def split: perm_start.splits)
  next
    fix f :: flow and ev assume "?P f"
    then show "?P (flowStep e ev f)"
      using launch_order_step [of f e ev] by (simp add: fgame_flowStep)
  qed
  then show ?thesis by simp
qed

lemma launch_target_run:
  "StartApp p \<in> set (log (flowRun e evs (newFlow e g))) \<Longrightarrow> p = packageName g"
proof -
  let ?P = "\<lambda>f::flow. fgame f = g \<and> (\<forall>p. StartApp p \<in> set (log f) \<longrightarrow> p = packageName g)"
  have "?P (flowRun e evs (newFlow e g))"
  proof (rule flowRun_invariant [where P = ?P])
    show "?P (newFlow e g)"
      by (simp add: newFlow_def split: perm_start.splits)
  next
    fix f :: flow and ev assume "?P f"
    then show "?P (flowStep e ev f)"
      by (auto simp: fgame_flowStep log_flowStep dest: startApp_target)
  qed
  then show "StartApp p \<in> set (log (flowRun e evs (newFlow e g))) \<Longrightarrow> p = packageName g" by simp
qed

lemma timedInv_step:
  assumes "timedInv A f" "ev \<noteq> QueryResolve (QueryResolved True)"
  shows "timedInv A (flowStep e ev f)"
  using assms
  by (cases ev)
     (auto simp: timedInv_def flowStep_def react_defs isAlert_def
           split: call_outcome.splits query_outcome.splits)

lemma deadline_step:
  "deadlinePending (flowStep e ev f) \<Longrightarrow> phase f = Finished \<Longrightarrow> deadlinePending f \<and> ev \<noteq> DeadlineFire"
  by (cases ev)
     (auto simp: flowStep_def react_defs split: call_outcome.splits query_outcome.splits if_splits)

lemma timedInv_run:
  "timedInv A f \<Longrightarrow> QueryResolve (QueryResolved True) \<notin> set evs \<Longrightarrow>
   timedInv A (flowRun e evs f)
   \<and> (deadlinePending (flowRun e evs f) \<longrightarrow> deadlinePending f \<and> DeadlineFire \<notin> set evs)"
proof (induction evs arbitrary: f)
  case Nil
  then show ?case by simp
next
  case (Cons ev evs)
  have ne: "ev \<noteq> QueryResolve (QueryResolved True)"
    and rest: "QueryResolve (QueryResolved True) \<notin> set evs"
    using Cons.prems(2) by auto
  have inv: "timedInv A (flowStep e ev f)"
    by (rule timedInv_step [OF Cons.prems(1) ne])
  have ph: "phase f = Finished" using Cons.prems(1) by (simp add: timedInv_def)
  show ?case
    using Cons.IH [OF inv rest] deadline_step [of e ev f, OF _ ph] by auto
qed

lemma stopped_step:
  "phase f = Finished \<Longrightarrow> \<not> intervalActive f \<Longrightarrow>
   phase (flowStep e ev f) = Finished \<and> \<not> intervalActive (flowStep e ev f)
   \<and> filter isCheck (emitted e ev f) = []"
  by (cases ev)
     (auto simp: flowStep_def emitted_def react_defs isCheck_def
           split: call_outcome.splits query_outcome.splits)

lemma stopped_run:
  "phase f = Finished \<Longrightarrow> \<not> intervalActive f \<Longrightarrow>
   filter isCheck (log (flowRun e evs f)) = filter isCheck (log f)"
proof (induction evs arbitrary: f)
  case Nil
  then show ?case by simp
next
  case (Cons ev evs)
  from stopped_step [OF Cons.prems, of e ev]
  have ph: "phase (flowStep e ev f) = Finished" and ia: "\<not> intervalActive (flowStep e ev f)"
    and em: "filter isCheck (emitted e ev f) = []" by simp_all
  have "filter isCheck (log (flowRun e evs (flowStep e ev f))) = filter isCheck (log (flowStep e ev f))"
    by (rule Cons.IH [OF ph ia])
  then show ?case by (simp add: log_flowStep em)
qed

lemma handoff_returned_step:
  "phase f = HandingOffToInstaller \<Longrightarrow>
   flowStep e (HandoffResolve Returned) f
     = f\<lparr>phase := Finished, intervalActive := True, deadlinePending := True,
         log := log f @ [SetDownloadingGame None, SetInterval 2000, SetTimeout 20000]\<rparr>"
  by (simp add: flowStep_def react_defs)

lemma timedInv_start:
  assumes "phase (flowRun e evs1 (newFlow e g)) = HandingOffToInstaller"
  shows "timedInv [Alert (AlertDownloading (title g))]
           (flowStep e (HandoffResolve Returned) (flowRun e evs1 (newFlow e g)))"
  using reach_HandingOff [OF assms]
  by (auto simp: handoff_returned_step [OF assms] timedInv_def quiet_def promptLog_def startLog_def
        isAlert_def split: perm_start.splits)

lemma pollInv_new: "pollInv g (newFlow e g)"
  by (simp add: pollInv_def newFlow_def split: perm_start.splits)

lemma pollInv_run: "pollInv g (flowRun e evs (newFlow e g))"
proof -
  let ?P = "\<lambda>f::flow. startInv e g f \<and> pollInv g f"
  have "?P (flowRun e evs (newFlow e g))"
  proof (rule flowRun_invariant [where P = ?P])
    show "?P (newFlow e g)" by (simp add: startInv_new pollInv_new)
  next
    fix f :: flow and ev assume "?P f"
    then show "?P (flowStep e ev f)" by (simp add: startInv_step pollInv_step)
  qed
  then show ?thesis by simp
qed

lemma clear_order_step:
  assumes "precededBy ClearInterval (Alert (AlertInstalled (title (fgame f)))) (log f)"
  shows "precededBy ClearInterval (Alert (AlertInstalled (title (fgame f)))) (log (flowStep e ev f))"
proof (cases "Alert (AlertInstalled (title (fgame f))) \<in> set (emitted e ev f)")
  case True
  show ?thesis
    using assms by (simp add: precededBy_def log_flowStep scanPrev_append installed_emitted [OF True])
next
  case False
  show ?thesis
    using assms scanPrev_absent [OF False]
    by (simp add: precededBy_def log_flowStep scanPrev_append)
qed

lemma clear_order_run:
  "precededBy ClearInterval (Alert (AlertInstalled (title g))) (log (flowRun e evs (newFlow e g)))"
proof -
  let ?P = "\<lambda>f::flow. fgame f = g \<and> precededBy ClearInterval (Alert (AlertInstalled (title g))) (log f)"
  have "?P (flowRun e evs (newFlow e g))"
  proof (rule flowRun_invariant [where P = ?P])
    show "?P (newFlow e g)"
      by (simp add: newFlow_def precededBy_def split: perm_start.splits)
  next
    fix f :: flow and ev assume "?P f"
    then show "?P (flowStep e ev f)"
      using clear_order_step [of f e ev] by (simp add: fgame_flowStep)
  qed
  then show ?thesis by simp
qed

lemma fgame_run: "fgame (flowRun e evs f) = fgame f"
  by (induction evs arbitrary: f) (simp_all add: fgame_flowStep)

lemma query_true_step:
  "0 < pendingQueries f \<Longrightarrow>
   flowStep e (QueryResolve (QueryResolved True)) f
     = f\<lparr>intervalActive := False, pendingQueries := pendingQueries f - 1,
         pendingLaunches := Suc (pendingLaunches f),
         log := log f @ [ClearInterval, Alert (AlertInstalled (title (fgame f))),
                         StartApp (packageName (fgame f))]\<rparr>"
  by (simp add: flowStep_def react_defs)

lemma deadline_fires_step:
  "deadlinePending f \<Longrightarrow>
   flowStep e DeadlineFire f
     = f\<lparr>intervalActive := False, deadlinePending := False, log := log f @ [ClearInterval]\<rparr>"
  by (simp add: flowStep_def react_defs)

lemma downloadingGame_step:
  "w < length (flows s) \<Longrightarrow>
   downloadingGame (step e (Flow w ev) s) = applySets (emitted e ev (flows s ! w)) (downloadingGame s)"
  by (simp add: step_def)

lemma emitted_finished_noset:
  "phase f = Finished \<Longrightarrow> \<forall>x\<in>set (emitted e ev f). \<not> isSet x"
  by (cases ev)
     (auto simp: emitted_def react_defs isSet_def split: call_outcome.splits query_outcome.splits)

lemma emitted_polling_noset:
  "ev = TickFire \<or> ev = DeadlineFire \<or> ev = QueryResolve q \<or> ev = LaunchResolve c \<Longrightarrow>
   applySets (emitted e ev f) d = d"
  by (auto simp: emitted_def react_defs split: call_outcome.splits query_outcome.splits)

lemma emitted_handoff:
  "phase f = HandingOffToInstaller \<Longrightarrow> applySets (emitted e (HandoffResolve r) f) d = None"
  by (cases r) (auto simp: emitted_def react_defs)

lemma emitted_download_failure:
  "phase f = Downloading \<Longrightarrow> dr \<noteq> DlResolved 200 \<Longrightarrow>
   applySets (emitted e (DownloadResolve dr) f) d = None"
  by (cases dr) (auto simp: emitted_def react_defs)

lemma emitted_permission:
  "phase f = AwaitingPermission \<Longrightarrow>
   applySets (emitted e (PermResolve out) f) d =
     (case requestPermission e out of
        Inl x \<Rightarrow> None
      | Inr ok \<Rightarrow> if ok then Some (gid (fgame f)) else d)"
  by (auto simp: emitted_def react_defs split: sum.splits)

lemma entering_finished:
  "phase f \<noteq> Finished \<Longrightarrow> phase (flowStep e ev f) = Finished \<Longrightarrow>
   (phase f = AwaitingPermission \<and> emitted e ev f = [Alert AlertPermissionDenied])
   \<or> (\<forall>d. applySets (emitted e ev f) d = None)"
  by (cases ev)
     (auto simp: flowStep_def emitted_def react_defs
           split: sum.splits call_outcome.splits dl_outcome.splits query_outcome.splits if_splits)

lemma promptLog_noset: "\<forall>x\<in>set (promptLog e). \<not> isSet x"
  by (simp add: promptLog_def isSet_def split: perm_start.splits)

lemma netClear_step:
  assumes "startInv e g f" "netClear f"
  shows "netClear (flowStep e ev f)"
proof (cases "phase f = Finished")
  case True
  have ns: "\<forall>x\<in>set (emitted e ev f). \<not> isSet x" by (rule emitted_finished_noset [OF True])
  have "phase (flowStep e ev f) = Finished"
    using True by (cases ev) (auto simp: flowStep_def react_defs split: call_outcome.splits query_outcome.splits)
  then show ?thesis
    using assms(2) True ns
    by (auto simp: netClear_def log_flowStep applySets_append applySets_noset)
next
  case False
  show ?thesis unfolding netClear_def
  proof
    assume fin: "phase (flowStep e ev f) = Finished"
    from entering_finished [OF False fin]
    show "(\<forall>d. applySets (log (flowStep e ev f)) d = None) \<or> (\<forall>x\<in>set (log (flowStep e ev f)). \<not> isSet x)"
    proof
      assume a: "phase f = AwaitingPermission \<and> emitted e ev f = [Alert AlertPermissionDenied]"
      then have "log f = promptLog e" using assms(1) by (simp add: startInv_def)
      then have "\<forall>x\<in>set (log (flowStep e ev f)). \<not> isSet x"
        using a promptLog_noset [of e] by (simp add: log_flowStep isSet_def)
      then show ?thesis ..
    next
      assume "\<forall>d. applySets (emitted e ev f) d = None"
      then have "\<forall>d. applySets (log (flowStep e ev f)) d = None"
        by (simp add: log_flowStep applySets_append)
      then show ?thesis ..
    qed
  qed
qed

lemma netClear_new: "netClear (newFlow e g)"
  by (simp add: netClear_def newFlow_def)

lemma netClear_run: "netClear (flowRun e evs (newFlow e g))"
proof -
  let ?P = "\<lambda>f::flow. startInv e g f \<and> netClear f"
  have "?P (flowRun e evs (newFlow e g))"
  proof (rule flowRun_invariant [where P = ?P])
    show "?P (newFlow e g)" by (simp add: startInv_new netClear_new)
  next
    fix f :: flow and ev assume "?P f"
    then show "?P (flowStep e ev f)" using startInv_step netClear_step by blast
  qed
  then show ?thesis by simp
qed

lemma run_invariant:
  assumes "P s" and "\<And>s ev. P s \<Longrightarrow> P (step e ev s)"
  shows "P (run e evs s)"
  using assms(1) by (induction evs arbitrary: s) (auto intro: assms(2))

lemma indicator_write:
  "applySets (emitted e ev f) d =
     (case ev of
        PermResolve out \<Rightarrow>
          if phase f = AwaitingPermission
          then (case requestPermission e out of
                  Inl x \<Rightarrow> None
                | Inr ok \<Rightarrow> if ok then Some (gid (fgame f)) else d)
          else d
      | DownloadResolve dr \<Rightarrow> if phase f = Downloading \<and> dr \<noteq> DlResolved 200 then None else d
      | HandoffResolve r \<Rightarrow> if phase f = HandingOffToInstaller then None else d
      | _ \<Rightarrow> d)"
  by (cases ev)
     (auto simp: emitted_def react_defs
           split: sum.splits call_outcome.splits dl_outcome.splits query_outcome.splits)

lemma indicator_step:
  "applySets (emitted e ev f) d = Some i \<Longrightarrow>
   (gid (fgame f) = i \<and> inFlight (flowStep e ev f))
   \<or> (d = Some i \<and> (inFlight f \<longrightarrow> inFlight (flowStep e ev f)))"
  by (cases ev)
     (auto simp: emitted_def flowStep_def react_defs inFlight_def
           split: sum.splits call_outcome.splits dl_outcome.splits query_outcome.splits if_splits)

lemma busyRun_nth:
  "busyRun i s = (\<exists>w<length (flows s). gid (fgame (flows s ! w)) = i \<and> inFlight (flows s ! w))"
  unfolding busyRun_def list_ex_iff by (metis in_set_conv_nth)

lemma busy_press:
  "busyRun i s \<Longrightarrow> busyRun i (step e (Press g) s)"
  by (auto simp: busyRun_def step_def)

lemma busy_flow_step:
  assumes inv: "\<forall>i. downloadingGame s = Some i \<longrightarrow> busyRun i s"
    and new: "downloadingGame (step e (Flow w ev) s) = Some i"
  shows "busyRun i (step e (Flow w ev) s)"
proof (cases "w < length (flows s)")
  case False
  then have "step e (Flow w ev) s = s" by (simp add: step_def)
  then show ?thesis using inv new by simp
next
  case True
  let ?f = "flows s ! w"
  have fl: "flows (step e (Flow w ev) s) = (flows s)[w := flowStep e ev ?f]"
    using True by (simp add: step_def)
  have "applySets (emitted e ev ?f) (downloadingGame s) = Some i"
    using new by (simp add: downloadingGame_step [OF True])
  from indicator_step [OF this]
  show ?thesis
  proof
    assume a: "gid (fgame ?f) = i \<and> inFlight (flowStep e ev ?f)"
    have "w < length (flows (step e (Flow w ev) s))" using True by (simp add: fl)
    moreover have "gid (fgame (flows (step e (Flow w ev) s) ! w)) = i
                   \<and> inFlight (flows (step e (Flow w ev) s) ! w)"
      using a True by (simp add: fl fgame_flowStep)
    ultimately show ?thesis unfolding busyRun_nth by blast
  next
    assume b: "downloadingGame s = Some i \<and> (inFlight ?f \<longrightarrow> inFlight (flowStep e ev ?f))"
    then have "busyRun i s" using inv by simp
    then obtain v where v: "v < length (flows s)" "gid (fgame (flows s ! v)) = i" "inFlight (flows s ! v)"
      unfolding busyRun_nth by blast
    have "v < length (flows (step e (Flow w ev) s))" using v(1) by (simp add: fl)
    moreover have "gid (fgame (flows (step e (Flow w ev) s) ! v)) = i
                   \<and> inFlight (flows (step e (Flow w ev) s) ! v)"
      using v b by (cases "v = w") (simp_all add: fl fgame_flowStep)
    ultimately show ?thesis unfolding busyRun_nth by blast
  qed
qed

lemma busy_invariant:
  "\<forall>i. downloadingGame (run e evs init) = Some i \<longrightarrow> busyRun i (run e evs init)"
proof (rule run_invariant [where P = "\<lambda>s. \<forall>i. downloadingGame s = Some i \<longrightarrow> busyRun i s"])
  show "\<forall>i. downloadingGame init = Some i \<longrightarrow> busyRun i init" by (simp add: init_def)
next
  fix s ev
  assume inv: "\<forall>i. downloadingGame s = Some i \<longrightarrow> busyRun i s"
  show "\<forall>i. downloadingGame (step e ev s) = Some i \<longrightarrow> busyRun i (step e ev s)"
  proof (cases ev)
    case (Press g)
    have "downloadingGame (step e (Press g) s) = downloadingGame s" by (simp add: step_def)
    then show ?thesis using inv busy_press [of _ s e g] by (simp add: Press)
  next
    case (Flow w fev)
    show ?thesis using busy_flow_step [OF inv, of e w fev] by (simp add: Flow)
  qed
qed

lemmas eval_defs = step_def init_def flowStep_def emitted_def react_defs newFlow_def
  requestPermission_def requestPermission_start_def

section \<open>The destination file name\<close>

lemma isAlnum_not_ws: "isAlnum c \<Longrightarrow> \<not> isWhiteSpace c"
  by (auto simp: isAlnum_def isWhiteSpace_def)

lemma dropWhile_none: "\<forall>x\<in>set xs. \<not> P x \<Longrightarrow> dropWhile P xs = xs"
  by (cases xs) auto

text \<open>After the replacement no white space is left, so \<open>trim\<close> changes nothing.\<close>

lemma trim_replaceNonAlnum: "trim (replaceNonAlnum t) = replaceNonAlnum t"
proof -
  have "\<forall>c\<in>set (replaceNonAlnum t). \<not> isWhiteSpace c"
    by (auto simp: replaceNonAlnum_def isAlnum_def isWhiteSpace_def)
  then show ?thesis by (simp add: trim_def dropWhile_none)
qed

text \<open>
  C2, as the code has it: the file name is the title with every code unit outside
  \<open>[a-zA-Z0-9]\<close> replaced by an underscore (nothing is removed, so the length is kept and
  trimming has no effect), followed by \<open>.apk\<close>. The stem holds only alphanumeric
  characters and underscores. Being a function of the title, the name is deterministic.
\<close>

theorem destFileName_replaces:
  "destFileName t = map (\<lambda>c. if isAlnum c then c else 95) t @ ascii ''.apk''
   \<and> (\<forall>c\<in>set (take (length t) (destFileName t)). isAlnum c \<or> c = 95)"
proof -
  have eq: "destFileName t = map (\<lambda>c. if isAlnum c then c else 95) t @ ascii ''.apk''"
    by (simp add: destFileName_def trim_replaceNonAlnum) (simp add: replaceNonAlnum_def)
  show ?thesis unfolding eq by auto
qed

theorem destFileName_replaces_witness:
  "destFileName (ascii ''A b'') = ascii ''A_b.apk''
   \<and> list_all (\<lambda>c. isAlnum c \<or> c = 95) (take 3 (destFileName (ascii ''A b'')))"
  using destFileName_replaces [of "ascii ''A b''"] by (simp add: ascii_def isAlnum_def)

text \<open>
  C2 as stated fails: for the title \<open>Space Jump!\<close> the code yields \<open>Space_Jump_.apk\<close>, which
  contains underscores, and not the \<open>SpaceJump.apk\<close> that stripping would give.
\<close>

theorem destFileName_SpaceJump_counterexample:
  "destFileName (ascii ''Space Jump!'') = ascii ''Space_Jump_.apk''
   \<and> destFileName (ascii ''Space Jump!'') \<noteq> ascii ''SpaceJump.apk''
   \<and> spec_destFileName (ascii ''Space Jump!'') = ascii ''SpaceJump.apk''"
  by (simp add: destFileName_def spec_destFileName_def trim_def replaceNonAlnum_def
      isAlnum_def isWhiteSpace_def ascii_def)

section \<open>The permission gate\<close>

text \<open>
  C9, as the code has it: where no consent is needed (not Android, or version 29 and
  later) the gate returns true and presents no prompt; on older Android it prompts,
  returns true exactly when the prompt resolves with the granted result and false for
  every other resolved result; a prompt that rejects is raised to the caller.
\<close>

theorem requestPermission_cases:
  "(platformOS e \<noteq> ''android'' \<or> 29 \<le> platformVersion e \<longrightarrow>
      requestPermission_start e = PermReturns True \<and> requestPermission e out = Inr True)
   \<and> (platformOS e = ''android'' \<and> platformVersion e < 29 \<longrightarrow>
      requestPermission_start e = PermPrompts
      \<and> requestPermission e (PermResolved r) = Inr (r = GRANTED)
      \<and> requestPermission e PermRejected = Inl Exn)"
  by (auto simp: requestPermission_def requestPermission_start_def)

theorem requestPermission_cases_witness:
  "(platformOS newAndroid = ''android'' \<and> 29 \<le> platformVersion newAndroid)
   \<and> requestPermission_start newAndroid = PermReturns True
   \<and> requestPermission newAndroid PermRejected = Inr True
   \<and> (platformOS oldAndroid = ''android'' \<and> platformVersion oldAndroid < 29)
   \<and> requestPermission_start oldAndroid = PermPrompts
   \<and> requestPermission oldAndroid (PermResolved ''denied'') = Inr False
   \<and> requestPermission oldAndroid (PermResolved ''granted'') = Inr True"
  using requestPermission_cases [of newAndroid PermRejected "''denied''"]
    requestPermission_cases [of oldAndroid PermRejected "''denied''"]
    requestPermission_cases [of oldAndroid PermRejected "''granted''"]
  by (simp add: newAndroid_def oldAndroid_def GRANTED_def)

text \<open>
  C9 as stated fails: on Android 28 a rejected permission request makes the gate raise;
  it does not return false.
\<close>

theorem requestPermission_raises_counterexample:
  "requestPermission oldAndroid PermRejected = Inl Exn
   \<and> requestPermission oldAndroid PermRejected \<noteq> Inr False"
  by (simp add: requestPermission_def requestPermission_start_def oldAndroid_def)

section \<open>Permission denied\<close>

text \<open>
  C4: when the gate returns false for an invocation waiting for it, the whole log of that
  invocation, whatever happens afterwards, is the prompt followed by exactly one
  permission-denied alert; the download is never called.
\<close>

theorem permission_denied_run:
  assumes "phase (flowRun e evs1 (newFlow e g)) = AwaitingPermission"
    and "requestPermission e out = Inr False"
  shows "log (flowRun e (evs1 @ PermResolve out # evs2) (newFlow e g))
           = [PermissionRequest, Alert AlertPermissionDenied]
         \<and> filter isAlert (log (flowRun e (evs1 @ PermResolve out # evs2) (newFlow e g)))
           = [Alert AlertPermissionDenied]
         \<and> (\<forall>u d. DownloadFile u d \<notin> set (log (flowRun e (evs1 @ PermResolve out # evs2) (newFlow e g))))"
proof -
  let ?f = "flowRun e evs1 (newFlow e g)"
  let ?f' = "flowStep e (PermResolve out) ?f"
  have q: "quiet ?f" and l: "log ?f = promptLog e"
    using reach_AwaitingPermission [OF assms(1)] by simp_all
  have st: "?f' = ?f\<lparr>phase := Finished, log := log ?f @ [Alert AlertPermissionDenied]\<rparr>"
    by (rule denied_step [OF assms])
  have "phase ?f' = Finished" "quiet ?f'"
    using q by (simp_all add: st quiet_def)
  then have "flowRun e evs2 ?f' = ?f'" by (rule inert_run)
  then have "log (flowRun e (evs1 @ PermResolve out # evs2) (newFlow e g)) = log ?f'"
    by (simp add: flowRun_append)
  also have "\<dots> = [PermissionRequest, Alert AlertPermissionDenied]"
    by (simp add: st l denied_prompts [OF assms(2)])
  finally show ?thesis by (simp add: isAlert_def)
qed

theorem permission_denied_run_witness:
  "phase (flowRun oldAndroid [TickFire] (newFlow oldAndroid spaceJump)) = AwaitingPermission
   \<and> requestPermission oldAndroid (PermResolved ''denied'') = Inr False
   \<and> log (flowRun oldAndroid ([TickFire] @ PermResolve (PermResolved ''denied'')
             # [DownloadResolve (DlResolved 200), TickFire]) (newFlow oldAndroid spaceJump))
       = [PermissionRequest, Alert AlertPermissionDenied]"
proof -
  have a: "phase (flowRun oldAndroid [TickFire] (newFlow oldAndroid spaceJump)) = AwaitingPermission"
    by (simp add: flowStep_def react_defs newFlow_def)
  have b: "requestPermission oldAndroid (PermResolved ''denied'') = Inr False"
    by (simp add: requestPermission_def requestPermission_start_def oldAndroid_def GRANTED_def)
  show ?thesis
    using a b permission_denied_run [OF a b, of "[DownloadResolve (DlResolved 200), TickFire]"]
    by simp
qed

section \<open>The download status decides the handoff\<close>

text \<open>
  C3, as the code has it. Take an invocation waiting for its download, and let the
  download resolve with status code \<open>c\<close>, followed by any further events.
  If \<open>c\<close> is 200 the handoff is called, the invocation waits for it
  (\<open>HandingOffToInstaller\<close>), no download-failed alert is ever raised, and the error alert
  of the catch block appears only if the handoff call itself raises.
  If \<open>c\<close> is not 200 the log ends with the download-failed alert and the clearing of the
  busy indicator, whatever happens afterwards, and no handoff is ever called.
\<close>

theorem download_status_decides_handoff:
  assumes "phase (flowRun e evs1 (newFlow e g)) = Downloading"
  shows "(c = 200 \<longrightarrow>
            phase (flowStep e (DownloadResolve (DlResolved c)) (flowRun e evs1 (newFlow e g)))
              = HandingOffToInstaller
          \<and> ActionViewIntent (dest e g)
              \<in> set (log (flowRun e (evs1 @ DownloadResolve (DlResolved c) # evs2) (newFlow e g)))
          \<and> Alert AlertDownloadFailed
              \<notin> set (log (flowRun e (evs1 @ DownloadResolve (DlResolved c) # evs2) (newFlow e g)))
          \<and> (Alert AlertInstallError
                \<in> set (log (flowRun e (evs1 @ DownloadResolve (DlResolved c) # evs2) (newFlow e g)))
              \<longrightarrow> HandoffResolve Raised \<in> set evs2))
       \<and> (c \<noteq> 200 \<longrightarrow>
            log (flowRun e (evs1 @ DownloadResolve (DlResolved c) # evs2) (newFlow e g))
              = log (flowRun e evs1 (newFlow e g)) @ [Alert AlertDownloadFailed, SetDownloadingGame None]
          \<and> (\<forall>d. ActionViewIntent d
                \<notin> set (log (flowRun e (evs1 @ DownloadResolve (DlResolved c) # evs2) (newFlow e g)))))"
proof -
  let ?f = "flowRun e evs1 (newFlow e g)"
  let ?f' = "flowStep e (DownloadResolve (DlResolved c)) ?f"
  let ?r = "flowRun e (evs1 @ DownloadResolve (DlResolved c) # evs2) (newFlow e g)"
  have q: "quiet ?f" and fg: "fgame ?f = g" and l: "log ?f = promptLog e @ startLog e g"
    using reach_Downloading [OF assms] by simp_all
  have r: "?r = flowRun e evs2 ?f'" by (simp add: flowRun_append)
  have ok: ?thesis if c: "c = 200"
  proof -
    have st: "?f' = ?f\<lparr>phase := HandingOffToInstaller, log := log ?f @ [ActionViewIntent (dest e g)]\<rparr>"
      using download_ok_step [OF assms, of e] fg c by simp
    have ph: "phase ?f' = HandingOffToInstaller \<or> phase ?f' = Finished" by (simp add: st)
    have lg: "log ?f' = promptLog e @ startLog e g @ [ActionViewIntent (dest e g)]"
      by (simp add: st l)
    have 1: "ActionViewIntent (dest e g) \<in> set (log ?r)"
      using log_grows [of ?f' e evs2] by (auto simp: r lg)
    have 2: "Alert AlertDownloadFailed \<notin> set (log ?r)"
      using downloadFailed_not_late [OF ph, of e evs2] startLogs_plain(2) [of e g]
      by (auto simp: r lg)
    have 3: "Alert AlertInstallError \<in> set (log ?r) \<longrightarrow> HandoffResolve Raised \<in> set evs2"
      using installError_only_by_handoff [OF ph, of e evs2] startLogs_plain(1) [of e g]
      by (auto simp: r lg)
    have 0: "phase ?f' = HandingOffToInstaller" by (simp add: st)
    show ?thesis using c 0 1 2 3 by simp
  qed
  have bad: ?thesis if c: "c \<noteq> 200"
  proof -
    have st: "?f' = ?f\<lparr>phase := Finished, log := log ?f @ [Alert AlertDownloadFailed, SetDownloadingGame None]\<rparr>"
      by (rule download_bad_step [OF assms c])
    have "phase ?f' = Finished" "quiet ?f'" using q by (simp_all add: st quiet_def)
    then have "flowRun e evs2 ?f' = ?f'" by (rule inert_run)
    then have lr: "log ?r = log ?f @ [Alert AlertDownloadFailed, SetDownloadingGame None]"
      by (simp add: r st)
    have "\<forall>d. ActionViewIntent d \<notin> set (log ?r)"
      using startLogs_plain(3) [of _ e g] by (auto simp: lr l)
    then show ?thesis using c lr by simp
  qed
  show ?thesis using ok bad by blast
qed

theorem download_status_decides_handoff_witness:
  "phase (flowRun newAndroid [PermResolve (PermResolved ''granted'')] (newFlow newAndroid spaceJump)) = Downloading
   \<and> ActionViewIntent (dest newAndroid spaceJump)
       \<in> set (log (flowRun newAndroid ([PermResolve (PermResolved ''granted'')] @ DownloadResolve (DlResolved 200)
                 # [HandoffResolve Returned]) (newFlow newAndroid spaceJump)))
   \<and> log (flowRun newAndroid ([PermResolve (PermResolved ''granted'')] @ DownloadResolve (DlResolved 404)
             # [HandoffResolve Returned]) (newFlow newAndroid spaceJump))
       = log (flowRun newAndroid [PermResolve (PermResolved ''granted'')] (newFlow newAndroid spaceJump))
         @ [Alert AlertDownloadFailed, SetDownloadingGame None]"
proof -
  have a: "phase (flowRun newAndroid [PermResolve (PermResolved ''granted'')] (newFlow newAndroid spaceJump)) = Downloading"
    by (simp add: flowStep_def react_defs newFlow_def requestPermission_def
        requestPermission_start_def newAndroid_def)
  show ?thesis
    using a download_status_decides_handoff [OF a, of 200 "[HandoffResolve Returned]"]
      download_status_decides_handoff [OF a, of 404 "[HandoffResolve Returned]"]
    by simp
qed

text \<open>
  C3 as stated fails in its "never Failed" part: the download resolves with 200, the
  handoff call raises, and the catch block reports the failure.
\<close>

theorem handoff_raises_counterexample:
  "log (flowRun newAndroid
         [PermResolve (PermResolved ''granted''), DownloadResolve (DlResolved 200), HandoffResolve Raised]
         (newFlow newAndroid spaceJump))
   = [SetDownloadingGame (Some 1), Alert (AlertDownloading (title spaceJump)),
      DownloadFile (apkUrl spaceJump) (dest newAndroid spaceJump),
      ActionViewIntent (dest newAndroid spaceJump),
      ConsoleError, SetDownloadingGame None, Alert AlertInstallError]"
  by (simp add: flowStep_def react_defs newFlow_def requestPermission_def
      requestPermission_start_def newAndroid_def spaceJump_def)

section \<open>Faults during polling\<close>

text \<open>
  C7: when the install query of a tick in flight raises, the reaction is caught inside
  the tick: it only writes to the console, raises no alert, leaves the phase and both
  timers as they were (the next firing of a live interval issues a check again), and,
  like every reaction of the engine, it does not let the fault escape.
\<close>

theorem query_fault_is_not_terminal:
  assumes "0 < pendingQueries f"
  shows "react e (QueryResolve QueryRaised) f
           = Inr ([ConsoleLog], f\<lparr>pendingQueries := pendingQueries f - 1\<rparr>)
         \<and> flowStep e (QueryResolve QueryRaised) f
           = f\<lparr>pendingQueries := pendingQueries f - 1, log := log f @ [ConsoleLog]\<rparr>
         \<and> phase (flowStep e (QueryResolve QueryRaised) f) = phase f
         \<and> intervalActive (flowStep e (QueryResolve QueryRaised) f) = intervalActive f
         \<and> deadlinePending (flowStep e (QueryResolve QueryRaised) f) = deadlinePending f
         \<and> (intervalActive f \<longrightarrow>
              emitted e TickFire (flowStep e (QueryResolve QueryRaised) f)
                = [IsAppInstalled (packageName (fgame f))])
         \<and> (\<forall>ev f'. \<exists>r. react e ev f' = Inr r)"
proof -
  have 1: "react e (QueryResolve QueryRaised) f
             = Inr ([ConsoleLog], f\<lparr>pendingQueries := pendingQueries f - 1\<rparr>)"
    using assms by (simp add: react_defs)
  have 2: "intervalActive f \<longrightarrow>
             emitted e TickFire (f\<lparr>pendingQueries := pendingQueries f - 1, log := log f @ [ConsoleLog]\<rparr>)
               = [IsAppInstalled (packageName (fgame f))]"
    by (simp add: emitted_def react_defs)
  have 3: "\<forall>ev f'. \<exists>r. react e ev f' = Inr r"
    using react_total [of e] by blast
  show ?thesis
    using 1 2 3 by (simp add: query_raised_step [OF assms])
qed

theorem query_fault_is_not_terminal_witness:
  "0 < pendingQueries (flowStep newAndroid TickFire pollingFlow)
   \<and> log (flowStep newAndroid (QueryResolve QueryRaised) (flowStep newAndroid TickFire pollingFlow))
       = log pollingFlow @ [IsAppInstalled (packageName spaceJump), ConsoleLog]
   \<and> intervalActive (flowStep newAndroid (QueryResolve QueryRaised) (flowStep newAndroid TickFire pollingFlow))"
proof -
  let ?T = "pollingFlow\<lparr>pendingQueries := 1,
              log := log pollingFlow @ [IsAppInstalled (packageName spaceJump)]\<rparr>"
  have f: "flowStep newAndroid TickFire pollingFlow = ?T"
    by (simp add: pollingFlow_eval flowStep_def react_defs)
  have a: "0 < pendingQueries ?T" by simp
  show ?thesis
    using a query_fault_is_not_terminal [OF a, of newAndroid]
    unfolding f by (simp add: pollingFlow_eval)
qed

section \<open>The launch\<close>

text \<open>
  C8: in every run each launch call comes directly after the installed alert of that
  run and names the item's package, so there is no launch before the installed state is
  reported and none on a path without it; and when the launch call raises, the reaction
  only writes to the console: no alert is raised and nothing else of the state changes.
\<close>

theorem launch_only_after_installed:
  "precededBy (Alert (AlertInstalled (title g))) (StartApp (packageName g))
     (log (flowRun e evs (newFlow e g)))
   \<and> (\<forall>p. StartApp p \<in> set (log (flowRun e evs (newFlow e g))) \<longrightarrow> p = packageName g)
   \<and> (0 < pendingLaunches f \<longrightarrow>
        flowStep e (LaunchResolve Raised) f
          = f\<lparr>pendingLaunches := pendingLaunches f - 1, log := log f @ [ConsoleLog]\<rparr>)"
  using launch_order_run [of g e evs] launch_target_run [of _ e evs g] launch_raised_step [of f e]
  by blast

theorem launch_only_after_installed_witness:
  "log (flowRun newAndroid [TickFire, QueryResolve (QueryResolved True)] pollingFlow)
     = log pollingFlow @ [IsAppInstalled (packageName spaceJump), ClearInterval,
                          Alert (AlertInstalled (title spaceJump)), StartApp (packageName spaceJump)]
   \<and> precededBy (Alert (AlertInstalled (title spaceJump))) (StartApp (packageName spaceJump))
       (log (flowRun newAndroid [TickFire, QueryResolve (QueryResolved True)] pollingFlow))
   \<and> 0 < pendingLaunches (flowRun newAndroid [TickFire, QueryResolve (QueryResolved True)] pollingFlow)
   \<and> log (flowStep newAndroid (LaunchResolve Raised)
            (flowRun newAndroid [TickFire, QueryResolve (QueryResolved True)] pollingFlow))
       = log (flowRun newAndroid [TickFire, QueryResolve (QueryResolved True)] pollingFlow) @ [ConsoleLog]"
proof -
  let ?evs = "[PermResolve (PermResolved ''granted''), DownloadResolve (DlResolved 200),
               HandoffResolve Returned, TickFire, QueryResolve (QueryResolved True)]"
  let ?F = "pollingFlow\<lparr>intervalActive := False, pendingLaunches := 1,
                 log := log pollingFlow @ [IsAppInstalled (packageName spaceJump), ClearInterval,
                          Alert (AlertInstalled (title spaceJump)), StartApp (packageName spaceJump)]\<rparr>"
  have f: "flowRun newAndroid [TickFire, QueryResolve (QueryResolved True)] pollingFlow = ?F"
    by (simp add: pollingFlow_eval flowStep_def react_defs)
  have g: "flowRun newAndroid ?evs (newFlow newAndroid spaceJump) = ?F"
    using f by (simp add: pollingFlow_def)
  have p: "0 < pendingLaunches ?F" by simp
  show ?thesis
    using p launch_only_after_installed [of spaceJump newAndroid ?evs ?F]
    unfolding f g by simp
qed

section \<open>The deadline\<close>

text \<open>
  C5, as the code has it. Take an invocation whose handoff returns, and a polling session
  in which no check reports the package and the deadline timer fires. At the end the
  interval is cleared and the deadline timer is spent, \<open>clearInterval\<close> has been called
  exactly once in the whole run, and no check is issued by anything that happens later.
  No notification belongs to the deadline: the only alert of the whole run is the
  downloading alert raised before the transfer.
\<close>

theorem polling_deadline:
  assumes "phase (flowRun e evs1 (newFlow e g)) = HandingOffToInstaller"
    and "QueryResolve (QueryResolved True) \<notin> set evs"
    and "DeadlineFire \<in> set evs"
  shows "\<not> intervalActive (flowRun e (evs1 @ HandoffResolve Returned # evs) (newFlow e g))
         \<and> \<not> deadlinePending (flowRun e (evs1 @ HandoffResolve Returned # evs) (newFlow e g))
         \<and> count_list (log (flowRun e (evs1 @ HandoffResolve Returned # evs) (newFlow e g)))
              ClearInterval = 1
         \<and> filter isAlert (log (flowRun e (evs1 @ HandoffResolve Returned # evs) (newFlow e g)))
              = [Alert (AlertDownloading (title g))]
         \<and> (\<forall>evs'. filter isCheck
                (log (flowRun e evs' (flowRun e (evs1 @ HandoffResolve Returned # evs) (newFlow e g))))
              = filter isCheck (log (flowRun e (evs1 @ HandoffResolve Returned # evs) (newFlow e g))))"
proof -
  let ?f0 = "flowStep e (HandoffResolve Returned) (flowRun e evs1 (newFlow e g))"
  let ?f1 = "flowRun e (evs1 @ HandoffResolve Returned # evs) (newFlow e g)"
  have r: "?f1 = flowRun e evs ?f0" by (simp add: flowRun_append)
  have inv0: "timedInv [Alert (AlertDownloading (title g))] ?f0"
    by (rule timedInv_start [OF assms(1)])
  from timedInv_run [OF inv0 assms(2), of e]
  have inv1: "timedInv [Alert (AlertDownloading (title g))] ?f1"
    and dl: "\<not> deadlinePending ?f1"
    using assms(3) by (auto simp: r)
  have ia: "\<not> intervalActive ?f1" and ph: "phase ?f1 = Finished"
    and cnt: "count_list (log ?f1) ClearInterval = 1"
    and al: "filter isAlert (log ?f1) = [Alert (AlertDownloading (title g))]"
    using inv1 dl by (simp_all add: timedInv_def)
  have "\<forall>evs'. filter isCheck (log (flowRun e evs' ?f1)) = filter isCheck (log ?f1)"
    using stopped_run [OF ph ia] by blast
  then show ?thesis using ia dl cnt al by blast
qed

theorem polling_deadline_witness:
  "phase (flowRun newAndroid [PermResolve (PermResolved ''granted''), DownloadResolve (DlResolved 200)]
            (newFlow newAndroid spaceJump)) = HandingOffToInstaller
   \<and> QueryResolve (QueryResolved True)
       \<notin> set [TickFire, QueryResolve (QueryResolved False), DeadlineFire]
   \<and> DeadlineFire \<in> set [TickFire, QueryResolve (QueryResolved False), DeadlineFire]
   \<and> count_list (log (flowRun newAndroid
         ([PermResolve (PermResolved ''granted''), DownloadResolve (DlResolved 200)]
          @ HandoffResolve Returned # [TickFire, QueryResolve (QueryResolved False), DeadlineFire])
         (newFlow newAndroid spaceJump))) ClearInterval = 1
   \<and> filter isAlert (log (flowRun newAndroid
         ([PermResolve (PermResolved ''granted''), DownloadResolve (DlResolved 200)]
          @ HandoffResolve Returned # [TickFire, QueryResolve (QueryResolved False), DeadlineFire])
         (newFlow newAndroid spaceJump))) = [Alert (AlertDownloading (title spaceJump))]"
proof -
  have a: "phase (flowRun newAndroid [PermResolve (PermResolved ''granted''), DownloadResolve (DlResolved 200)]
            (newFlow newAndroid spaceJump)) = HandingOffToInstaller"
    by (simp add: flowStep_def react_defs newFlow_def requestPermission_def
        requestPermission_start_def newAndroid_def)
  have b: "QueryResolve (QueryResolved True)
             \<notin> set [TickFire, QueryResolve (QueryResolved False), DeadlineFire]" by simp
  have c: "DeadlineFire \<in> set [TickFire, QueryResolve (QueryResolved False), DeadlineFire]" by simp
  show ?thesis
    using a b c polling_deadline [OF a b c] by blast
qed

text \<open>
  C5 as stated fails in its last part: a session that runs into the deadline ends
  silently. The whole log of such a run has the downloading alert and no other.
\<close>

theorem deadline_is_silent_counterexample:
  "log (flowRun newAndroid [TickFire, QueryResolve (QueryResolved False), DeadlineFire] pollingFlow)
     = [SetDownloadingGame (Some 1), Alert (AlertDownloading (title spaceJump)),
        DownloadFile (apkUrl spaceJump) (dest newAndroid spaceJump),
        ActionViewIntent (dest newAndroid spaceJump),
        SetDownloadingGame None, SetInterval 2000, SetTimeout 20000,
        IsAppInstalled (packageName spaceJump), ClearInterval]
   \<and> filter isAlert
        (log (flowRun newAndroid [TickFire, QueryResolve (QueryResolved False), DeadlineFire]
                pollingFlow)) = [Alert (AlertDownloading (title spaceJump))]"
  by (simp add: pollingFlow_eval flowStep_def react_defs isAlert_def)

section \<open>Releasing the poll handle\<close>

text \<open>
  C6, as the code has it. In every state \<open>f\<close> of every run:
  each installed alert comes directly after a call of \<open>clearInterval\<close>, so on the success
  path the interval is released before the notification;
  \<open>clearInterval\<close> has been called once for each installed alert, and once more if the
  deadline timer has fired;
  the interval never outlives the deadline timer;
  a check that reports the package clears the interval, alerts and launches, and leaves
  the deadline timer as it was (it is never cancelled);
  and the deadline timer, when it fires, calls \<open>clearInterval\<close> and leaves no timer behind.
\<close>

theorem poll_handle_release:
  assumes "f = flowRun e evs (newFlow e g)"
  shows "precededBy ClearInterval (Alert (AlertInstalled (title g))) (log f)
         \<and> count_list (log f) ClearInterval
             = count_list (log f) (Alert (AlertInstalled (title g)))
               + (if SetTimeout 20000 \<in> set (log f) \<and> \<not> deadlinePending f then 1 else 0)
         \<and> (intervalActive f \<longrightarrow> deadlinePending f)
         \<and> (0 < pendingQueries f \<longrightarrow>
               flowStep e (QueryResolve (QueryResolved True)) f
                 = f\<lparr>intervalActive := False, pendingQueries := pendingQueries f - 1,
                     pendingLaunches := Suc (pendingLaunches f),
                     log := log f @ [ClearInterval, Alert (AlertInstalled (title g)),
                                     StartApp (packageName g)]\<rparr>)
         \<and> (deadlinePending f \<longrightarrow>
               flowStep e DeadlineFire f
                 = f\<lparr>intervalActive := False, deadlinePending := False,
                     log := log f @ [ClearInterval]\<rparr>)"
proof -
  have fg: "fgame f = g" by (simp add: assms fgame_run newFlow_def)
  have 1: "precededBy ClearInterval (Alert (AlertInstalled (title g))) (log f)"
    unfolding assms by (rule clear_order_run)
  have "pollInv g f" unfolding assms by (rule pollInv_run)
  then have 2: "count_list (log f) ClearInterval
             = count_list (log f) (Alert (AlertInstalled (title g)))
               + (if SetTimeout 20000 \<in> set (log f) \<and> \<not> deadlinePending f then 1 else 0)"
    and 3: "intervalActive f \<longrightarrow> deadlinePending f"
    by (simp_all add: pollInv_def)
  show ?thesis
    using 1 2 3 query_true_step [of f e] deadline_fires_step [of f e] fg by simp
qed

theorem poll_handle_release_witness:
  "intervalActive (flowStep newAndroid TickFire pollingFlow)
   \<and> deadlinePending (flowStep newAndroid TickFire pollingFlow)
   \<and> 0 < pendingQueries (flowStep newAndroid TickFire pollingFlow)
   \<and> log (flowStep newAndroid (QueryResolve (QueryResolved True))
            (flowStep newAndroid TickFire pollingFlow))
       = log (flowStep newAndroid TickFire pollingFlow)
         @ [ClearInterval, Alert (AlertInstalled (title spaceJump)), StartApp (packageName spaceJump)]
   \<and> deadlinePending (flowStep newAndroid (QueryResolve (QueryResolved True))
            (flowStep newAndroid TickFire pollingFlow))
   \<and> log (flowStep newAndroid DeadlineFire (flowStep newAndroid TickFire pollingFlow))
       = log (flowStep newAndroid TickFire pollingFlow) @ [ClearInterval]"
proof -
  let ?evs = "[PermResolve (PermResolved ''granted''), DownloadResolve (DlResolved 200),
               HandoffResolve Returned, TickFire]"
  let ?T = "pollingFlow\<lparr>pendingQueries := 1,
              log := log pollingFlow @ [IsAppInstalled (packageName spaceJump)]\<rparr>"
  have f: "flowStep newAndroid TickFire pollingFlow = ?T"
    by (simp add: pollingFlow_eval flowStep_def react_defs)
  have g: "?T = flowRun newAndroid ?evs (newFlow newAndroid spaceJump)"
    using f by (simp add: pollingFlow_def)
  have p: "intervalActive ?T" "deadlinePending ?T" "0 < pendingQueries ?T"
    by (simp_all add: pollingFlow_eval)
  show ?thesis
    using p poll_handle_release [OF g]
    unfolding f by simp
qed

text \<open>
  C6 as stated fails on the success path: the check that reports the package calls
  \<open>clearInterval\<close> and leaves the deadline timer pending; when that timer fires it calls
  \<open>clearInterval\<close> again. The release is called twice, and between the two calls a timer
  of the finished session is still alive.
\<close>

theorem release_twice_counterexample:
  "log (flowRun newAndroid [TickFire, QueryResolve (QueryResolved True), DeadlineFire] pollingFlow)
     = log pollingFlow
       @ [IsAppInstalled (packageName spaceJump), ClearInterval,
          Alert (AlertInstalled (title spaceJump)), StartApp (packageName spaceJump), ClearInterval]
   \<and> count_list
        (log (flowRun newAndroid [TickFire, QueryResolve (QueryResolved True), DeadlineFire] pollingFlow))
        ClearInterval = 2
   \<and> deadlinePending (flowRun newAndroid [TickFire, QueryResolve (QueryResolved True)] pollingFlow)"
  by (simp add: pollingFlow_eval flowStep_def react_defs)

section \<open>The busy indicator\<close>

text \<open>
  C10. For every invocation \<open>w\<close> in every state of the component:
  when its handoff completes, by returning or by raising, the busy indicator is cleared;
  when its download fails, by a status other than 200 or by raising, it is cleared;
  when its permission request raises, it is cleared;
  and no polling event (a tick, a reply to a check or to a launch, the deadline) touches
  it, so what polling does later cannot set it again.
  For a whole run: once \<open>installGame\<close> has returned, the run's own writes to the
  indicator end with the clearing one, unless it never wrote it at all (permission denied).
\<close>

theorem busy_indicator_cleared:
  assumes "w < length (flows s)"
  shows "(phase (flows s ! w) = HandingOffToInstaller \<longrightarrow>
            downloadingGame (step e (Flow w (HandoffResolve r)) s) = None)
         \<and> (phase (flows s ! w) = Downloading \<and> dr \<noteq> DlResolved 200 \<longrightarrow>
            downloadingGame (step e (Flow w (DownloadResolve dr)) s) = None)
         \<and> (phase (flows s ! w) = AwaitingPermission \<and> requestPermission e out = Inl x \<longrightarrow>
            downloadingGame (step e (Flow w (PermResolve out)) s) = None)
         \<and> (ev = TickFire \<or> ev = DeadlineFire \<or> ev = QueryResolve q \<or> ev = LaunchResolve c \<longrightarrow>
            downloadingGame (step e (Flow w ev) s) = downloadingGame s)
         \<and> (phase (flowRun e evs (newFlow e g)) = Finished \<longrightarrow>
            (\<forall>d. applySets (log (flowRun e evs (newFlow e g))) d = None)
            \<or> (\<forall>v. SetDownloadingGame v \<notin> set (log (flowRun e evs (newFlow e g)))))"
proof -
  have 5: "phase (flowRun e evs (newFlow e g)) = Finished \<longrightarrow>
            (\<forall>d. applySets (log (flowRun e evs (newFlow e g))) d = None)
            \<or> (\<forall>v. SetDownloadingGame v \<notin> set (log (flowRun e evs (newFlow e g))))"
    using netClear_run [of e evs g] by (auto simp: netClear_def isSet_def)
  show ?thesis
    using 5 emitted_polling_noset [of ev q c e "flows s ! w" "downloadingGame s"]
    by (auto simp: downloadingGame_step [OF assms] emitted_handoff emitted_download_failure
          emitted_permission)
qed


theorem busy_indicator_cleared_witness:
  "downloadingGame (run newAndroid
      [Press spaceJump, Flow 0 (PermResolve (PermResolved ''granted'')),
       Flow 0 (DownloadResolve (DlResolved 200))] init) = Some 1
   \<and> downloadingGame (run newAndroid
      [Press spaceJump, Flow 0 (PermResolve (PermResolved ''granted'')),
       Flow 0 (DownloadResolve (DlResolved 200)), Flow 0 (HandoffResolve Returned)] init) = None
   \<and> downloadingGame (run newAndroid
      [Press spaceJump, Flow 0 (PermResolve (PermResolved ''granted'')),
       Flow 0 (DownloadResolve (DlResolved 200)), Flow 0 (HandoffResolve Returned),
       Flow 0 TickFire] init) = None
   \<and> downloadingGame (run newAndroid
      [Press spaceJump, Flow 0 (PermResolve (PermResolved ''granted'')),
       Flow 0 (DownloadResolve (DlResolved 404))] init) = None
   \<and> downloadingGame (run oldAndroid
      [Press spaceJump, Flow 0 (PermResolve PermRejected)] init) = None"
proof -
  let ?s2 = "run newAndroid [Press spaceJump, Flow 0 (PermResolve (PermResolved ''granted''))] init"
  let ?s3 = "run newAndroid [Press spaceJump, Flow 0 (PermResolve (PermResolved ''granted'')),
       Flow 0 (DownloadResolve (DlResolved 200))] init"
  let ?s4 = "run newAndroid [Press spaceJump, Flow 0 (PermResolve (PermResolved ''granted'')),
       Flow 0 (DownloadResolve (DlResolved 200)), Flow 0 (HandoffResolve Returned)] init"
  let ?s1 = "run oldAndroid [Press spaceJump] init"
  have e2: "?s2 = \<lparr>downloadingGame = Some 1,
      flows = [(newFlow newAndroid spaceJump)\<lparr>phase := Downloading,
        log := [SetDownloadingGame (Some 1), Alert (AlertDownloading (title spaceJump)),
                DownloadFile (apkUrl spaceJump) (dest newAndroid spaceJump)]\<rparr>]\<rparr>"
    by (simp add: step_def init_def flowStep_def emitted_def react_defs newFlow_def
        requestPermission_def requestPermission_start_def newAndroid_def spaceJump_def)
  have e3: "?s3 = \<lparr>downloadingGame = Some 1,
      flows = [(newFlow newAndroid spaceJump)\<lparr>phase := HandingOffToInstaller,
        log := [SetDownloadingGame (Some 1), Alert (AlertDownloading (title spaceJump)),
                DownloadFile (apkUrl spaceJump) (dest newAndroid spaceJump),
                ActionViewIntent (dest newAndroid spaceJump)]\<rparr>]\<rparr>"
    by (simp add: step_def init_def flowStep_def emitted_def react_defs newFlow_def
        requestPermission_def requestPermission_start_def newAndroid_def spaceJump_def)
  have e4: "?s4 = \<lparr>downloadingGame = None, flows = [pollingFlow]\<rparr>"
    by (simp add: step_def init_def flowStep_def emitted_def react_defs newFlow_def
        requestPermission_def requestPermission_start_def newAndroid_def spaceJump_def pollingFlow_def)
  have e1: "?s1 = \<lparr>downloadingGame = None, flows = [newFlow oldAndroid spaceJump]\<rparr>"
    by (simp add: step_def init_def)
  have w3: "0 < length (flows ?s3)" and w4: "0 < length (flows ?s4)"
    and w2: "0 < length (flows ?s2)" and w1: "0 < length (flows ?s1)"
    unfolding e1 e2 e3 e4 by simp_all
  have p: "requestPermission oldAndroid PermRejected = Inl Exn"
    by (simp add: requestPermission_def requestPermission_start_def oldAndroid_def)
  have a: "downloadingGame ?s3 = Some 1" unfolding e3 by simp
  have b: "downloadingGame (step newAndroid (Flow 0 (HandoffResolve Returned)) ?s3) = None"
    using busy_indicator_cleared [OF w3, where e = newAndroid and r = Returned] unfolding e3 by simp
  have c: "downloadingGame (step newAndroid (Flow 0 TickFire) ?s4) = None"
    using busy_indicator_cleared [OF w4, where e = newAndroid and ev = TickFire] unfolding e4 by simp
  have d: "downloadingGame (step newAndroid (Flow 0 (DownloadResolve (DlResolved 404))) ?s2) = None"
    using busy_indicator_cleared [OF w2, where e = newAndroid and dr = "DlResolved 404"] unfolding e2 by simp
  have f: "downloadingGame (step oldAndroid (Flow 0 (PermResolve PermRejected)) ?s1) = None"
    using busy_indicator_cleared [OF w1, where e = oldAndroid and out = PermRejected and x = Exn] p unfolding e1
    by (simp add: newFlow_def)
  show ?thesis
    using a b c d f by simp
qed

section \<open>The install button\<close>

text \<open>
  C1, as the code has it. In every state \<open>s\<close> the component can reach:
  a press on the button of an item is ignored (the state is unchanged, no invocation
  starts) when the busy indicator holds the identifier of that item, and in every other
  state it starts a new invocation of \<open>installGame\<close> for the item, whatever invocations
  for it already exist;
  the indicator is one value for all items, and an event for invocation \<open>w\<close> changes it
  only in these ways: the grant of its permission gate writes the identifier of its own
  item, and a raising permission request, a download that fails or raises, and a handoff
  that returns or raises clear it;
  so whenever the indicator holds the identifier of an item, some invocation for that
  item is between its permission grant and the end of its handoff.
  The converse does not hold, as the runs after the theorem show.
\<close>

theorem press_guard:
  assumes "s = run e evs init"
  shows "(downloadingGame s = Some (gid g) \<longrightarrow> step e (Press g) s = s)
         \<and> (downloadingGame s \<noteq> Some (gid g) \<longrightarrow>
              step e (Press g) s = s\<lparr>flows := flows s @ [newFlow e g]\<rparr>)
         \<and> (w < length (flows s) \<longrightarrow>
              downloadingGame (step e (Flow w ev) s) =
                (case ev of
                   PermResolve out \<Rightarrow>
                     if phase (flows s ! w) = AwaitingPermission
                     then (case requestPermission e out of
                             Inl x \<Rightarrow> None
                           | Inr ok \<Rightarrow>
                               if ok then Some (gid (fgame (flows s ! w))) else downloadingGame s)
                     else downloadingGame s
                 | DownloadResolve dr \<Rightarrow>
                     if phase (flows s ! w) = Downloading \<and> dr \<noteq> DlResolved 200 then None
                     else downloadingGame s
                 | HandoffResolve r \<Rightarrow>
                     if phase (flows s ! w) = HandingOffToInstaller then None
                     else downloadingGame s
                 | _ \<Rightarrow> downloadingGame s))
         \<and> (downloadingGame s = Some i \<longrightarrow> busyRun i s)"
proof -
  have 1: "downloadingGame s = Some (gid g) \<longrightarrow> step e (Press g) s = s"
    and 2: "downloadingGame s \<noteq> Some (gid g) \<longrightarrow>
              step e (Press g) s = s\<lparr>flows := flows s @ [newFlow e g]\<rparr>"
    by (simp_all add: step_def)
  have 4: "downloadingGame s = Some i \<longrightarrow> busyRun i s"
    unfolding assms using busy_invariant [of e evs] by blast
  show ?thesis
    using 1 2 4 by (simp add: downloadingGame_step indicator_write)
qed

theorem press_guard_witness:
  "downloadingGame (run newAndroid [Press spaceJump, Flow 0 (PermResolve (PermResolved ''granted''))] init)
     = Some (gid spaceJump)
   \<and> step newAndroid (Press spaceJump)
        (run newAndroid [Press spaceJump, Flow 0 (PermResolve (PermResolved ''granted''))] init)
     = run newAndroid [Press spaceJump, Flow 0 (PermResolve (PermResolved ''granted''))] init
   \<and> downloadingGame (run newAndroid [Press spaceJump, Flow 0 (PermResolve (PermResolved ''granted''))] init)
     \<noteq> Some (gid mathQuest)
   \<and> length (flows (step newAndroid (Press mathQuest)
        (run newAndroid [Press spaceJump, Flow 0 (PermResolve (PermResolved ''granted''))] init))) = 2
   \<and> 0 < length (flows
        (run newAndroid [Press spaceJump, Flow 0 (PermResolve (PermResolved ''granted''))] init))
   \<and> downloadingGame (step newAndroid (Flow 0 (DownloadResolve (DlResolved 404)))
        (run newAndroid [Press spaceJump, Flow 0 (PermResolve (PermResolved ''granted''))] init)) = None
   \<and> busyRun (gid spaceJump)
        (run newAndroid [Press spaceJump, Flow 0 (PermResolve (PermResolved ''granted''))] init)"
proof -
  let ?s = "run newAndroid [Press spaceJump, Flow 0 (PermResolve (PermResolved ''granted''))] init"
  have a0: "downloadingGame ?s = Some 1"
    by (simp add: eval_defs newAndroid_def spaceJump_def)
  have a: "downloadingGame ?s = Some (gid spaceJump)"
    using a0 by (simp add: spaceJump_def)
  have b: "downloadingGame ?s \<noteq> Some (gid mathQuest)"
    using a0 by (simp add: mathQuest_def)
  have l: "length (flows ?s) = 1"
    by (simp add: eval_defs)
  have p: "phase (flows ?s ! 0) = Downloading"
    by (simp add: eval_defs newAndroid_def)
  have g1: "step newAndroid (Press spaceJump) ?s = ?s"
    and g4: "busyRun (gid spaceJump) ?s"
    using a press_guard [OF refl, where e = newAndroid and g = spaceJump and i = "gid spaceJump"
        and evs = "[Press spaceJump, Flow 0 (PermResolve (PermResolved ''granted''))]"]
    by blast+
  have g2: "step newAndroid (Press mathQuest) ?s = ?s\<lparr>flows := flows ?s @ [newFlow newAndroid mathQuest]\<rparr>"
    using b press_guard [OF refl, where e = newAndroid and g = mathQuest
        and evs = "[Press spaceJump, Flow 0 (PermResolve (PermResolved ''granted''))]"]
    by blast
  have g3: "downloadingGame (step newAndroid (Flow 0 (DownloadResolve (DlResolved 404))) ?s) = None"
    using l p press_guard [OF refl, where e = newAndroid and w = 0
        and ev = "DownloadResolve (DlResolved 404)"
        and evs = "[Press spaceJump, Flow 0 (PermResolve (PermResolved ''granted''))]"]
    by simp
  have "length (flows (step newAndroid (Press mathQuest) ?s)) = 2"
    unfolding g2 using l by simp
  then show ?thesis using a b l g1 g3 g4 by simp
qed

text \<open>
  C1 as stated fails. After the handoff of an item has returned, its invocation is
  polling and the indicator is cleared: a second press starts a second invocation for
  the same item. And while an item is downloading, starting another item overwrites the
  indicator, so a press on the first item is accepted again.
\<close>

theorem second_run_counterexample:
  "map phase (flows (run newAndroid
      [Press spaceJump, Flow 0 (PermResolve (PermResolved ''granted'')),
       Flow 0 (DownloadResolve (DlResolved 200)), Flow 0 (HandoffResolve Returned),
       Press spaceJump] init)) = [Finished, AwaitingPermission]
   \<and> length (activeFlows (gid spaceJump) (run newAndroid
      [Press spaceJump, Flow 0 (PermResolve (PermResolved ''granted'')),
       Flow 0 (DownloadResolve (DlResolved 200)), Flow 0 (HandoffResolve Returned),
       Press spaceJump] init)) = 2
   \<and> map phase (flows (run newAndroid
      [Press spaceJump, Flow 0 (PermResolve (PermResolved ''granted'')),
       Press mathQuest, Flow 1 (PermResolve (PermResolved ''granted'')),
       Press spaceJump] init)) = [Downloading, Downloading, AwaitingPermission]
   \<and> downloadingGame (run newAndroid
      [Press spaceJump, Flow 0 (PermResolve (PermResolved ''granted'')),
       Press mathQuest, Flow 1 (PermResolve (PermResolved ''granted''))] init) = Some (gid mathQuest)
   \<and> length (activeFlows (gid spaceJump) (run newAndroid
      [Press spaceJump, Flow 0 (PermResolve (PermResolved ''granted'')),
       Press mathQuest, Flow 1 (PermResolve (PermResolved ''granted'')),
       Press spaceJump] init)) = 2"
  by (simp add: eval_defs activeFlows_def nonTerminal_def newAndroid_def spaceJump_def mathQuest_def)

end
